theory Spec2Isabelle
  imports Complex_Main "HOL-Library.Sublist" "HOL-Library.Multiset"
begin

section \<open>The input document\<close>

text \<open>
  The PDF library is an external collaborator. What \<^verbatim>\<open>analyze_whitespace\<close> and
  \<^verbatim>\<open>segment_pdf\<close> read from it is, per page, the page rectangle's width and height and
  the list returned by \<^verbatim>\<open>page.get_text("blocks")\<close>, of which only the first five
  components \<^verbatim>\<open>x0, y0, x1, y1, text\<close> are used. Coordinates are Python floats; they are
  modelled as exact rationals (every finite float is one) with exact arithmetic, so
  NaN, infinities and the rounding error of \<^verbatim>\<open>top - bottom\<close> are outside the model.
  A character stands for a code point below 256, and \<^verbatim>\<open>str.strip\<close> removes the code
  points that \<^verbatim>\<open>str.isspace\<close> accepts in that range; text with code points from 256 on
  is outside the model.
\<close>

record block =
  x0 :: rat
  y0 :: rat
  x1 :: rat
  y1 :: rat
  block_text :: string

record page =
  width :: rat
  height :: rat
  blocks :: "block list"

type_synonym document = "page list"

text \<open>The dictionary built at lines 30-35 of \<^verbatim>\<open>main.py\<close>.\<close>

record line =
  line_top :: rat
  line_bottom :: rat
  line_text :: string
  page_num :: nat

text \<open>A whitespace entry is the tuple \<^verbatim>\<open>(diff, i-1, i)\<close> of line 48.\<close>

type_synonym entry = "rat \<times> nat \<times> nat"

section \<open>Strings\<close>

definition isspace :: "char \<Rightarrow> bool" where
  "isspace c = (of_char c \<in> set [9, 10, 11, 12, 13, 28, 29, 30, 31, 32, 133, 160 :: nat])"

definition strip :: "string \<Rightarrow> string" where
  "strip s = rev (dropWhile isspace (rev (dropWhile isspace s)))"

definition digit :: "nat \<Rightarrow> char" where
  "digit d = char_of (48 + d)"

function str_nat :: "nat \<Rightarrow> string" where
  "str_nat n = (if n < 10 then [digit n] else str_nat (n div 10) @ [digit (n mod 10)])"
  by pat_completeness auto
termination
  by (relation "measure id") auto

definition str_int :: "int \<Rightarrow> string" where
  "str_int i = (if i < 0 then CHR ''-'' # str_nat (nat (- i)) else str_nat (nat i))"

section \<open>The line extractor: \<^verbatim>\<open>analyze_whitespace\<close>\<close>

text \<open>Lines 26-35: the records of one page, in block order, blank blocks dropped.\<close>

definition keep_block :: "block \<Rightarrow> bool" where
  "keep_block b = (block_text b \<noteq> [] \<and> strip (block_text b) \<noteq> [])"

definition mk_line :: "nat \<Rightarrow> block \<Rightarrow> line" where
  "mk_line pn b =
     \<lparr>line_top = y0 b, line_bottom = y1 b, line_text = strip (block_text b), page_num = pn\<rparr>"

definition page_lines :: "nat \<Rightarrow> page \<Rightarrow> line list" where
  "page_lines pn p = map (mk_line pn) (filter keep_block (blocks p))"

text \<open>
  Lines 20-39: every page in document order; \<^verbatim>\<open>list.sort\<close> is stable, as is
  \<^const>\<open>sort_key\<close>.
\<close>

definition all_line_positions :: "document \<Rightarrow> line list" where
  "all_line_positions doc =
     concat (map (\<lambda>pn. sort_key line_top (page_lines pn (doc ! pn))) [0..<length doc])"

text \<open>Lines 44-48: \<^verbatim>\<open>range(1, len(all_line_positions))\<close> is empty below two records.\<close>

definition whitespace_diff :: "line list \<Rightarrow> entry list" where
  "whitespace_diff ls =
     map (\<lambda>i. (\<bar>line_top (ls ! i) - line_bottom (ls ! (i - 1))\<bar>, i - 1, i)) [1..<length ls]"

definition analyze_whitespace :: "document \<Rightarrow> line list \<times> entry list" where
  "analyze_whitespace doc = (let ls = all_line_positions doc in (ls, whitespace_diff ls))"

section \<open>The segmenter: boundary selection\<close>

text \<open>Python 3's \<^verbatim>\<open>round\<close> of a float: to the nearest integer, ties to the even one.\<close>

definition py_round :: "rat \<Rightarrow> int" where
  "py_round x =
     (let f = \<lfloor>x\<rfloor>; d = x - of_int f
      in if d < 1 / 2 then f
         else if 1 / 2 < d then f + 1
         else if even f then f else f + 1)"

text \<open>Line 78: \<^verbatim>\<open>round(diff * 2) / 2\<close>.\<close>

definition rounded_diff :: "rat \<Rightarrow> rat" where
  "rounded_diff d = of_int (py_round (d * 2)) / 2"

text \<open>
  Lines 74-82. A Python dict keeps its keys in insertion order, so \<^verbatim>\<open>groups\<close> is an
  association list: an entry goes to the end of the list of its key, and a new key goes
  to the end of the dictionary.
\<close>

fun groups_append :: "rat \<Rightarrow> entry \<Rightarrow> (rat \<times> entry list) list \<Rightarrow> (rat \<times> entry list) list" where
  "groups_append r e [] = [(r, [e])]"
| "groups_append r e ((k, es) # gs) =
     (if k = r then (k, es @ [e]) # gs else (k, es) # groups_append r e gs)"

fun group_loop :: "entry list \<Rightarrow> (rat \<times> entry list) list \<Rightarrow> (rat \<times> entry list) list" where
  "group_loop [] groups = groups"
| "group_loop (e # es) groups = group_loop es (groups_append (rounded_diff (fst e)) e groups)"

definition group_whitespace :: "entry list \<Rightarrow> (rat \<times> entry list) list" where
  "group_whitespace ws = group_loop ws []"

text \<open>
  Lines 104-111, the inner loop over one group. The state is
  \<^verbatim>\<open>(segment_boundaries, current_group_count)\<close>; \<^verbatim>\<open>break\<close> leaves this loop only.
\<close>

fun inner_loop :: "int \<Rightarrow> entry list \<Rightarrow> nat list \<times> int \<Rightarrow> nat list \<times> int" where
  "inner_loop num_segments [] (bs, c) = (bs, c)"
| "inner_loop num_segments ((d, start_idx, end_idx) # rest) (bs, c) =
     (if start_idx \<notin> set bs
      then (if c + 1 \<ge> num_segments - 1 then (bs @ [end_idx], c + 1)
            else inner_loop num_segments rest (bs @ [end_idx], c + 1))
      else inner_loop num_segments rest (bs, c))"

text \<open>
  Lines 94-111, the loop over the sorted groups. The variable
  \<^verbatim>\<open>current_whitespace_group\<close> of lines 89 and 100-101 is written and never read; it is
  left out.
\<close>

fun outer_loop :: "int \<Rightarrow> (rat \<times> entry list) list \<Rightarrow> nat list \<times> int \<Rightarrow> nat list \<times> int" where
  "outer_loop num_segments [] (bs, c) = (bs, c)"
| "outer_loop num_segments ((whitespace_val, group_items) # gs) (bs, c) =
     (if int (length bs) \<ge> num_segments then (bs, c)
      else outer_loop num_segments gs (inner_loop num_segments group_items (bs, c)))"

text \<open>Lines 70-71, 84 and 92: the list the outer loop walks.\<close>

definition sorted_groups :: "entry list \<Rightarrow> (rat \<times> entry list) list" where
  "sorted_groups ws = sort_key fst (group_whitespace (sort_key fst ws))"

text \<open>Lines 87-111: the boundary list when the loops are left.\<close>

definition selected_boundaries :: "entry list \<Rightarrow> int \<Rightarrow> nat list" where
  "selected_boundaries ws num_segments =
     fst (outer_loop num_segments (sorted_groups ws) ([0], 0))"

text \<open>
  Lines 113-115. The list starts as \<^verbatim>\<open>[0]\<close> and only grows, so \<^verbatim>\<open>segment_boundaries[-1]\<close>
  never raises.
\<close>

definition segment_boundaries :: "line list \<Rightarrow> entry list \<Rightarrow> int \<Rightarrow> nat list" where
  "segment_boundaries line_positions ws num_segments =
     (let bs = selected_boundaries ws num_segments
      in if last bs \<noteq> length line_positions then bs @ [length line_positions] else bs)"

definition boundaries_of :: "document \<Rightarrow> int \<Rightarrow> nat list" where
  "boundaries_of doc num_segments =
     (case analyze_whitespace doc of
        (line_positions, ws) \<Rightarrow> segment_boundaries line_positions ws num_segments)"

section \<open>The segmenter: output\<close>

text \<open>
  What the run can change: the directories that exist, the PDF files that exist (an
  output document is its list of pages, a page its size and the text insertions made on
  it) and the lines printed.
\<close>

record out_page =
  out_width :: rat
  out_height :: rat
  inserted :: "((rat \<times> rat) \<times> string) list"

type_synonym out_pdf = "out_page list"

record world =
  dirs :: "string set"
  files :: "string \<rightharpoonup> out_pdf"
  stdout :: "string list"

definition print :: "string \<Rightarrow> world \<Rightarrow> world" where
  "print s w = w\<lparr>stdout := stdout w @ [s]\<rparr>"

text \<open>\<^verbatim>\<open>os.makedirs(output_dir, exist_ok=True)\<close>, line 65.\<close>

definition makedirs :: "string \<Rightarrow> world \<Rightarrow> world" where
  "makedirs d w = w\<lparr>dirs := insert d (dirs w)\<rparr>"

text \<open>\<^verbatim>\<open>os.path.join\<close> of a directory and a file name (POSIX).\<close>

definition path_join :: "string \<Rightarrow> string \<Rightarrow> string" where
  "path_join d f =
     (if f \<noteq> [] \<and> hd f = CHR ''/'' then f
      else if d = [] \<or> last d = CHR ''/'' then d @ f
      else d @ ''/'' @ f)"

definition mismatch_message :: "int \<Rightarrow> int \<Rightarrow> string" where
  "mismatch_message have need =
     ''Unable to segment PDF into the desired number of segments. we have '' @ str_int have
       @ '' segments and need '' @ str_int need"

definition saved_message :: "nat \<Rightarrow> string \<Rightarrow> string" where
  "saved_message k output_path = ''Saved segment '' @ str_nat k @ '' to: '' @ output_path"

definition completed_message :: "int \<Rightarrow> string" where
  "completed_message num_segments =
     ''PDF segmentation completed with '' @ str_int num_segments @ '' segments.''"

text \<open>The slice \<^verbatim>\<open>line_positions[start_idx:end_idx]\<close> of line 140, both indices non-negative.\<close>

definition slice :: "nat \<Rightarrow> nat \<Rightarrow> 'a list \<Rightarrow> 'a list" where
  "slice start_idx end_idx xs = drop start_idx (take end_idx xs)"

text \<open>Lines 139-142.\<close>

definition page_segment_lines :: "line list \<Rightarrow> nat \<Rightarrow> nat \<Rightarrow> nat \<Rightarrow> line list" where
  "page_segment_lines line_positions start_idx end_idx pn =
     filter (\<lambda>l. page_num l = pn) (slice start_idx end_idx line_positions)"

text \<open>Line 150: \<^verbatim>\<open>new_page.insert_text((10, line['top']), line['text'])\<close>.\<close>

definition insert_text :: "line \<Rightarrow> (rat \<times> rat) \<times> string" where
  "insert_text l = ((10, line_top l), line_text l)"

text \<open>Lines 135-150: the pages of one output document.\<close>

definition segment_pages :: "document \<Rightarrow> line list \<Rightarrow> nat \<Rightarrow> nat \<Rightarrow> out_pdf" where
  "segment_pages doc line_positions start_idx end_idx =
     concat (map (\<lambda>pn.
         let ls = page_segment_lines line_positions start_idx end_idx pn
         in if ls \<noteq> []
            then [\<lparr>out_width = width (doc ! pn), out_height = height (doc ! pn),
                   inserted = map insert_text ls\<rparr>]
            else [])
       [0..<length doc])"

text \<open>
  Lines 126-157, one round of the loop over \<^verbatim>\<open>range(num_segments)\<close>. It runs only when
  the boundary list has \<^verbatim>\<open>num_segments + 1\<close> elements, so both reads are in range.
\<close>

definition write_segment ::
  "document \<Rightarrow> line list \<Rightarrow> nat list \<Rightarrow> string \<Rightarrow> string \<Rightarrow> nat \<Rightarrow> world \<Rightarrow> world" where
  "write_segment doc line_positions bs output_prefix output_dir i w =
     (let output_pdf = segment_pages doc line_positions (bs ! i) (bs ! (i + 1))
      in if length output_pdf > 0
         then (let output_path = path_join output_dir (output_prefix @ str_nat (i + 1) @ ''.pdf'')
               in print (saved_message (i + 1) output_path)
                    (w\<lparr>files := (files w)(output_path \<mapsto> output_pdf)\<rparr>))
         else w)"

text \<open>
  \<^verbatim>\<open>segment_pdf\<close>, lines 52-160. The argument \<open>pdf_dir\<close> stands for
  \<^verbatim>\<open>os.path.dirname(os.path.abspath(pdf_path))\<close> and \<open>doc\<close> for what
  \<^verbatim>\<open>fitz.open(pdf_path)\<close> gives; failures of the file system and of the PDF library
  propagate uncaught in the source and are not modelled.
\<close>

definition segment_pdf ::
  "string \<Rightarrow> document \<Rightarrow> int \<Rightarrow> string \<Rightarrow> string option \<Rightarrow> world \<Rightarrow> world" where
  "segment_pdf pdf_dir doc num_segments output_prefix output_dir w =
     (let out_dir = (case output_dir of None \<Rightarrow> pdf_dir | Some d \<Rightarrow> d);
          w1 = makedirs out_dir w;
          line_positions = fst (analyze_whitespace doc);
          bs = boundaries_of doc num_segments
      in if int (length bs) \<noteq> num_segments + 1
         then print (mismatch_message (int (length bs) - 1) num_segments) w1
         else print (completed_message num_segments)
                (fold (write_segment doc line_positions bs output_prefix out_dir)
                   [0..<nat num_segments] w1))"

section \<open>Example documents\<close>

definition example_block :: "rat \<Rightarrow> rat \<Rightarrow> string \<Rightarrow> block" where
  "example_block t b s = \<lparr>x0 = 72, y0 = t, x1 = 500, y1 = b, block_text = s\<rparr>"

definition example_page :: "block list \<Rightarrow> page" where
  "example_page bs = \<lparr>width = 612, height = 792, blocks = bs\<rparr>"

definition doc_shrinking_gaps :: document where
  "doc_shrinking_gaps =
     [example_page [example_block 0 10 ''a'', example_block 13 20 ''b'',
                    example_block 22 30 ''c'', example_block 31 40 ''d'']]"


definition doc_two_pages :: document where
  "doc_two_pages =
     [example_page [example_block 50 60 '' b  '', example_block 10 20 ''a'',
                    example_block 30 40 ''   ''],
      example_page [example_block 5 15 ''c'']]"

definition doc_mixed_gaps :: document where
  "doc_mixed_gaps =
     [example_page [example_block 0 10 ''a'', example_block 15 20 ''b'',
        example_block 21 30 ''c'', example_block 39 40 ''d'', example_block 44 50 ''e'']]"

definition empty_world :: world where
  "empty_world = \<lparr>dirs = {}, files = Map.empty, stdout = []\<rparr>"

section \<open>Notation for entries\<close>

abbreviation entry_start :: "entry \<Rightarrow> nat" where "entry_start e \<equiv> fst (snd e)"

abbreviation entry_end :: "entry \<Rightarrow> nat" where "entry_end e \<equiv> snd (snd e)"

abbreviation entry_key :: "entry \<Rightarrow> rat" where "entry_key e \<equiv> rounded_diff (fst e)"

section \<open>Lemmas\<close>

subsection \<open>What the two loops select\<close>

text \<open>
  Each loop extends the boundary list by the end indices of a subsequence of the entries
  it walks, and every entry taken has a start index outside the list it started from.
\<close>


lemma inner_loop_sel:
  "\<exists>sel. subseq sel items \<and>
     inner_loop n items (bs, c) = (bs @ map entry_end sel, c + int (length sel)) \<and>
     (\<forall>e \<in> set sel. entry_start e \<notin> set bs)"
proof (induction items arbitrary: bs c)
  case Nil
  show ?case by (rule exI [of _ "[]"]) simp
next
  case (Cons x rest)
  obtain d s e where x: "x = (d, s, e)" by (cases x) auto
  show ?case
  proof (cases "s \<in> set bs")
    case True
    from Cons.IH [of bs c] obtain sel where
      "subseq sel rest" "inner_loop n rest (bs, c) = (bs @ map entry_end sel, c + int (length sel))"
      "\<forall>e \<in> set sel. entry_start e \<notin> set bs" by blast
    with True x show ?thesis by (intro exI [of _ sel]) (simp add: list_emb_Cons)
  next
    case False
    show ?thesis
    proof (cases "c + 1 \<ge> n - 1")
      case True
      with False x show ?thesis by (intro exI [of _ "[x]"]) simp
    next
      case stop: False
      from Cons.IH [of "bs @ [e]" "c + 1"] obtain sel where
        "subseq sel rest"
        "inner_loop n rest (bs @ [e], c + 1) = ((bs @ [e]) @ map entry_end sel, c + 1 + int (length sel))"
        "\<forall>e' \<in> set sel. entry_start e' \<notin> set (bs @ [e])" by blast
      with False stop x show ?thesis by (intro exI [of _ "x # sel"]) simp
    qed
  qed
qed

lemma outer_loop_sel:
  "\<exists>sel. subseq sel (concat (map snd gs)) \<and>
     outer_loop n gs (bs, c) = (bs @ map entry_end sel, c + int (length sel)) \<and>
     (\<forall>e \<in> set sel. entry_start e \<notin> set bs)"
proof (induction gs arbitrary: bs c)
  case Nil
  show ?case by (rule exI [of _ "[]"]) simp
next
  case (Cons g gs)
  obtain v items where g: "g = (v, items)" by (cases g) auto
  show ?case
  proof (cases "int (length bs) \<ge> n")
    case True
    with g show ?thesis by (intro exI [of _ "[]"]) simp
  next
    case False
    from inner_loop_sel [of items n bs c] obtain s1 where s1:
      "subseq s1 items" "inner_loop n items (bs, c) = (bs @ map entry_end s1, c + int (length s1))"
      "\<forall>e \<in> set s1. entry_start e \<notin> set bs" by blast
    from Cons.IH [of "bs @ map entry_end s1" "c + int (length s1)"] obtain s2 where s2:
      "subseq s2 (concat (map snd gs))"
      "outer_loop n gs (bs @ map entry_end s1, c + int (length s1)) =
         ((bs @ map entry_end s1) @ map entry_end s2, c + int (length s1) + int (length s2))"
      "\<forall>e \<in> set s2. entry_start e \<notin> set (bs @ map entry_end s1)" by blast
    have "subseq (s1 @ s2) (concat (map snd (g # gs)))"
      using s1(1) s2(1) g by (simp add: list_emb_append_mono)
    moreover have "outer_loop n (g # gs) (bs, c) = (bs @ map entry_end (s1 @ s2), c + int (length (s1 @ s2)))"
      using False g s1(2) s2(2) by simp
    moreover have "\<forall>e \<in> set (s1 @ s2). entry_start e \<notin> set bs"
      using s1(3) s2(3) by auto
    ultimately show ?thesis by blast
  qed
qed

subsection \<open>Rounding and grouping\<close>

text \<open>
  Rounding is monotone, so the groups of a list sorted by gap are runs of it, their keys
  appear in ascending order, and sorting the groups by key changes nothing.
\<close>

lemma py_round_of_int: "py_round (of_int k) = k"
  by (simp add: py_round_def)

lemma py_round_bounds: "\<lfloor>x\<rfloor> \<le> py_round x \<and> py_round x \<le> \<lfloor>x\<rfloor> + 1"
  by (simp add: py_round_def Let_def)

lemma py_round_mono:
  assumes "x \<le> y"
  shows "py_round x \<le> py_round y"
proof (cases "\<lfloor>x\<rfloor> = \<lfloor>y\<rfloor>")
  case True
  with assms have "x - of_int \<lfloor>x\<rfloor> \<le> y - of_int \<lfloor>y\<rfloor>" by simp
  with True show ?thesis by (auto simp: py_round_def Let_def)
next
  case False
  from assms have "\<lfloor>x\<rfloor> \<le> \<lfloor>y\<rfloor>" by (rule floor_mono)
  with False have "\<lfloor>x\<rfloor> + 1 \<le> \<lfloor>y\<rfloor>" by simp
  with py_round_bounds [of x] py_round_bounds [of y] show ?thesis by linarith
qed

lemma rounded_diff_mono: "x \<le> y \<Longrightarrow> rounded_diff x \<le> rounded_diff y"
  using py_round_mono [of "x * 2" "y * 2"] by (simp add: rounded_diff_def divide_right_mono)


lemma groups_append_sorted:
  assumes "sorted_wrt (<) (map fst gs)" and "\<forall>k \<in> set (map fst gs). k \<le> r"
  shows "concat (map snd (groups_append r e gs)) = concat (map snd gs) @ [e] \<and>
         sorted_wrt (<) (map fst (groups_append r e gs)) \<and>
         set (map fst (groups_append r e gs)) = insert r (set (map fst gs))"
  using assms
proof (induction gs)
  case Nil
  show ?case by simp
next
  case (Cons g gs)
  obtain k es where g: "g = (k, es)" by (cases g) auto
  show ?case
  proof (cases "k = r")
    case True
    have "gs = []"
    proof (cases gs)
      case (Cons g' gs')
      with Cons.prems g True have "r < fst g'" "fst g' \<le> r" by auto
      then show ?thesis by simp
    qed simp
    with True g show ?thesis by simp
  next
    case False
    from Cons.prems have "sorted_wrt (<) (map fst gs)" "\<forall>k \<in> set (map fst gs). k \<le> r" by auto
    from Cons.IH [OF this] Cons.prems False g show ?thesis by auto
  qed
qed

lemma group_loop_sorted:
  assumes "sorted (map entry_key xs)" and "sorted_wrt (<) (map fst gs)"
    and "\<forall>k \<in> set (map fst gs). \<forall>e \<in> set xs. k \<le> entry_key e"
  shows "concat (map snd (group_loop xs gs)) = concat (map snd gs) @ xs \<and>
         sorted_wrt (<) (map fst (group_loop xs gs))"
  using assms
proof (induction xs arbitrary: gs)
  case Nil
  then show ?case by simp
next
  case (Cons e xs)
  let ?r = "entry_key e"
  let ?gs = "groups_append ?r e gs"
  from Cons.prems have le: "\<forall>k \<in> set (map fst gs). k \<le> ?r" by simp
  note ga = groups_append_sorted [OF Cons.prems(2) le, of e]
  have c: "\<forall>k \<in> set (map fst ?gs). \<forall>e' \<in> set xs. k \<le> entry_key e'"
  proof (intro ballI)
    fix k e' assume k: "k \<in> set (map fst ?gs)" and e': "e' \<in> set xs"
    from k ga have "k = ?r \<or> k \<in> set (map fst gs)" by auto
    moreover from Cons.prems(1) e' have "?r \<le> entry_key e'" by auto
    moreover from Cons.prems(3) e' have "k \<in> set (map fst gs) \<Longrightarrow> k \<le> entry_key e'" by auto
    ultimately show "k \<le> entry_key e'" by auto
  qed
  from Cons.prems(1) have a: "sorted (map entry_key xs)" by simp
  from ga have b: "sorted_wrt (<) (map fst ?gs)" by simp
  from Cons.IH [OF a b c] ga show ?case by simp
qed

lemma sorted_entry_key: "sorted (map entry_key (sort_key fst ws))"
proof -
  have "sorted (map fst (sort_key fst ws))" by (rule sorted_sort_key)
  then show ?thesis
    by (simp add: sorted_wrt_map sorted_wrt_mono_rel [where P = "\<lambda>a b. fst a \<le> fst b"] rounded_diff_mono)
qed

lemma group_whitespace_sorted:
  "concat (map snd (group_whitespace (sort_key fst ws))) = sort_key fst ws \<and>
   sorted_wrt (<) (map fst (group_whitespace (sort_key fst ws)))"
  using group_loop_sorted [OF sorted_entry_key, of "[]" ws] by (simp add: group_whitespace_def)

lemma sorted_groups_eq: "sorted_groups ws = group_whitespace (sort_key fst ws)"
  unfolding sorted_groups_def
  by (rule sort_key_id_if_sorted) (use group_whitespace_sorted [of ws] in \<open>simp add: strict_sorted_iff\<close>)

lemma concat_sorted_groups: "concat (map snd (sorted_groups ws)) = sort_key fst ws"
  by (simp add: sorted_groups_eq group_whitespace_sorted)

lemma keys_sorted_groups: "sorted_wrt (<) (map fst (sorted_groups ws))"
  by (simp add: sorted_groups_eq group_whitespace_sorted)

lemma selected_boundaries_sel:
  "\<exists>sel. subseq sel (sort_key fst ws) \<and>
     selected_boundaries ws n = 0 # map entry_end sel \<and>
     (\<forall>e \<in> set sel. entry_start e \<noteq> 0)"
  using outer_loop_sel [of "sorted_groups ws" n "[0]" 0]
  by (auto simp: selected_boundaries_def concat_sorted_groups)

subsection \<open>The entries of a line list and the shape of the boundary list\<close>

lemma length_whitespace_diff: "length (whitespace_diff ls) = length ls - 1"
  by (simp add: whitespace_diff_def)

lemma nth_whitespace_diff:
  "k < length ls - 1 \<Longrightarrow>
   whitespace_diff ls ! k = (\<bar>line_top (ls ! (k + 1)) - line_bottom (ls ! k)\<bar>, k, k + 1)"
  by (simp add: whitespace_diff_def)

lemma ends_whitespace_diff: "map entry_end (whitespace_diff ls) = [1..<length ls]"
  by (simp add: whitespace_diff_def comp_def)

lemma in_whitespace_diff:
  "e \<in> set (whitespace_diff ls) \<Longrightarrow> entry_end e = Suc (entry_start e) \<and> entry_end e < length ls"
  by (auto simp: whitespace_diff_def)

lemma whitespace_diff_later:
  "length (filter (\<lambda>e. entry_start e \<noteq> 0) (whitespace_diff ls)) = length ls - 2"
proof -
  have "filter (\<lambda>e. entry_start e \<noteq> 0) (whitespace_diff ls) =
        map (\<lambda>i. (\<bar>line_top (ls ! i) - line_bottom (ls ! (i - 1))\<bar>, i - 1, i)) [2..<length ls]"
  proof (cases "length ls \<le> 1")
    case True
    then show ?thesis by (simp add: whitespace_diff_def)
  next
    case False
    then have "[1..<length ls] = 1 # [2..<length ls]"
      by (simp add: upt_conv_Cons numeral_2_eq_2)
    then show ?thesis
      by (auto simp: whitespace_diff_def filter_map comp_def numeral_2_eq_2 intro!: filter_True)
  qed
  then show ?thesis by simp
qed

lemma subseq_distinct: "subseq xs ys \<Longrightarrow> distinct ys \<Longrightarrow> distinct xs"
  by (auto simp: subseq_conv_nths)

lemma selected_boundaries_diff:
  "\<exists>bsel. selected_boundaries (whitespace_diff ls) n = 0 # bsel \<and> distinct bsel \<and>
      (\<forall>b \<in> set bsel. 2 \<le> b \<and> b < length ls) \<and> length bsel \<le> length ls - 2"
proof -
  let ?ws = "whitespace_diff ls"
  let ?P = "\<lambda>e::entry. entry_start e \<noteq> 0"
  from selected_boundaries_sel [of ?ws n] obtain sel where sel:
    "subseq sel (sort_key fst ?ws)" "selected_boundaries ?ws n = 0 # map entry_end sel"
    "\<forall>e \<in> set sel. ?P e" by blast
  have m: "mset (sort_key fst ?ws) = mset ?ws" by simp
  have d0: "distinct (map entry_end ?ws)" by (simp add: ends_whitespace_diff)
  have "mset (map entry_end (sort_key fst ?ws)) = mset (map entry_end ?ws)"
    by simp
  from mset_eq_imp_distinct_iff [OF this] d0
  have "distinct (map entry_end (sort_key fst ?ws))" by simp
  moreover from sel(1) have "subseq (map entry_end sel) (map entry_end (sort_key fst ?ws))"
    by (rule subseq_map)
  ultimately have d: "distinct (map entry_end sel)" by (blast intro: subseq_distinct)
  have "set sel \<subseteq> set ?ws"
  proof
    fix e assume "e \<in> set sel"
    from list_emb_set [OF sel(1) this] obtain y where "y \<in> set (sort_key fst ?ws)" "e = y"
      by blast
    then show "e \<in> set ?ws" by simp
  qed
  have r: "\<forall>b \<in> set (map entry_end sel). 2 \<le> b \<and> b < length ls"
  proof
    fix b assume "b \<in> set (map entry_end sel)"
    then obtain e where e: "e \<in> set sel" "b = entry_end e" by auto
    with \<open>set sel \<subseteq> set ?ws\<close> have "e \<in> set ?ws" by blast
    from in_whitespace_diff [OF this] sel(3) e show "2 \<le> b \<and> b < length ls" by auto
  qed
  from sel(3) have "filter ?P sel = sel" by (simp add: filter_True)
  with subseq_filter [OF sel(1), of ?P] have "subseq sel (filter ?P (sort_key fst ?ws))"
    by simp
  then have "length sel \<le> length (filter ?P (sort_key fst ?ws))"
    by (rule list_emb_length)
  also have "\<dots> = length (filter ?P ?ws)"
  proof (rule mset_eq_length)
    show "mset (filter ?P (sort_key fst ?ws)) = mset (filter ?P ?ws)" by simp
  qed
  finally have "length (map entry_end sel) \<le> length ls - 2"
    by (simp only: whitespace_diff_later length_map)
  with sel(2) d r show ?thesis by blast
qed

lemma segment_boundaries_shape:
  "\<exists>bsel. segment_boundaries ls (whitespace_diff ls) n =
            (if ls = [] then [0] else 0 # bsel @ [length ls]) \<and>
      distinct bsel \<and> (\<forall>b \<in> set bsel. 2 \<le> b \<and> b < length ls) \<and> length bsel \<le> length ls - 2"
proof -
  from selected_boundaries_diff [of ls n] obtain bsel where b:
    "selected_boundaries (whitespace_diff ls) n = 0 # bsel" "distinct bsel"
    "\<forall>b \<in> set bsel. 2 \<le> b \<and> b < length ls" "length bsel \<le> length ls - 2" by blast
  show ?thesis
  proof (cases "ls = []")
    case True
    with b(3) have "bsel = []" by (cases bsel) auto
    with True b show ?thesis by (intro exI [of _ "[]"]) (simp add: segment_boundaries_def)
  next
    case False
    have "last (0 # bsel) \<noteq> length ls"
    proof (cases "bsel = []")
      case True with False show ?thesis by simp
    next
      case ne: False
      then have "last bsel \<in> set bsel" by simp
      with b(3) have "last bsel < length ls" by blast
      with ne show ?thesis by simp
    qed
    with False b show ?thesis
      by (intro exI [of _ bsel]) (simp add: segment_boundaries_def)
  qed
qed

lemma boundaries_of_eq:
  "boundaries_of doc n =
     segment_boundaries (all_line_positions doc) (whitespace_diff (all_line_positions doc)) n"
  by (simp add: boundaries_of_def analyze_whitespace_def Let_def)

lemma groups_append_keys:
  assumes "\<forall>g \<in> set gs. \<forall>e' \<in> set (snd g). entry_key e' = fst g"
  shows "\<forall>g \<in> set (groups_append (entry_key e) e gs). \<forall>e' \<in> set (snd g). entry_key e' = fst g"
  using assms
proof (induction gs)
  case Nil
  show ?case by simp
next
  case (Cons g gs)
  obtain k es where g: "g = (k, es)" by (cases g) auto
  from Cons.prems have "\<forall>g \<in> set gs. \<forall>e' \<in> set (snd g). entry_key e' = fst g" by simp
  then have ih: "\<forall>g \<in> set (groups_append (entry_key e) e gs).
      \<forall>e' \<in> set (snd g). entry_key e' = fst g"
    by (rule Cons.IH)
  from Cons.prems g have es: "\<forall>e' \<in> set es. entry_key e' = k" by simp
  show ?case
  proof (cases "k = entry_key e")
    case True
    with es g Cons.prems show ?thesis by simp
  next
    case False
    with es g ih show ?thesis by simp
  qed
qed

lemma group_loop_keys:
  assumes "\<forall>g \<in> set gs. \<forall>e' \<in> set (snd g). entry_key e' = fst g"
  shows "\<forall>g \<in> set (group_loop xs gs). \<forall>e' \<in> set (snd g). entry_key e' = fst g"
  using assms
proof (induction xs arbitrary: gs)
  case Nil
  then show ?case by simp
next
  case (Cons e xs)
  from Cons.IH [OF groups_append_keys [OF Cons.prems, of e]] show ?case by simp
qed

lemma sorted_groups_keys:
  "\<forall>g \<in> set (sorted_groups ws). \<forall>e \<in> set (snd g). entry_key e = fst g"
  using group_loop_keys [of "[]" "sort_key fst ws"]
  by (simp add: sorted_groups_eq group_whitespace_def)

subsection \<open>The two loops as one pass\<close>

text \<open>
  The boundary list has one element more than the counter, so the test at the head of the
  outer loop fires exactly when the inner loop has left by \<^verbatim>\<open>break\<close>: the nested loops
  over the groups do what the inner loop does on the concatenation of the groups. That
  pass takes every entry whose start is not yet a boundary, in the order of the walk,
  until it has taken \<^verbatim>\<open>num_segments - 1\<close> of them.
\<close>

lemma inner_loop_append:
  assumes "c < n - 1"
  shows "inner_loop n (xs @ ys) (bs, c) =
         (case inner_loop n xs (bs, c) of
            (bs', c') \<Rightarrow> if c' \<ge> n - 1 then (bs', c') else inner_loop n ys (bs', c'))"
  using assms
proof (induction xs arbitrary: bs c)
  case Nil
  then show ?case by simp
next
  case (Cons x xs)
  obtain d s e where x: "x = (d, s, e)" by (cases x) auto
  show ?case
  proof (cases "s \<in> set bs")
    case True
    with x Cons.IH [OF Cons.prems, of bs] show ?thesis by simp
  next
    case False
    show ?thesis
    proof (cases "c + 1 \<ge> n - 1")
      case True
      with False x show ?thesis by simp
    next
      case stop: False
      then have "c + 1 < n - 1" by simp
      from Cons.IH [OF this, of "bs @ [e]"] False stop x show ?thesis by simp
    qed
  qed
qed

lemma outer_loop_flat:
  assumes "int (length bs) = c + 1"
  shows "outer_loop n gs (bs, c) =
         (if int (length bs) \<ge> n then (bs, c) else inner_loop n (concat (map snd gs)) (bs, c))"
  using assms
proof (induction gs arbitrary: bs c)
  case Nil
  show ?case by simp
next
  case (Cons g gs)
  obtain v items where g: "g = (v, items)" by (cases g) auto
  show ?case
  proof (cases "int (length bs) \<ge> n")
    case True
    with g show ?thesis by simp
  next
    case False
    with Cons.prems have c: "c < n - 1" by simp
    from inner_loop_sel [of items n bs c] obtain sel where sel:
      "inner_loop n items (bs, c) = (bs @ map entry_end sel, c + int (length sel))" by blast
    let ?bs = "bs @ map entry_end sel" and ?c = "c + int (length sel)"
    from Cons.prems have len: "int (length ?bs) = ?c + 1" by simp
    have "outer_loop n (g # gs) (bs, c) = outer_loop n gs (?bs, ?c)"
      using False g sel by simp
    also have "\<dots> = (if int (length ?bs) \<ge> n then (?bs, ?c)
                      else inner_loop n (concat (map snd gs)) (?bs, ?c))"
      by (rule Cons.IH [OF len])
    also have "\<dots> = (if ?c \<ge> n - 1 then (?bs, ?c)
                      else inner_loop n (concat (map snd gs)) (?bs, ?c))"
      using len by simp
    also have "\<dots> = inner_loop n (items @ concat (map snd gs)) (bs, c)"
      using inner_loop_append [OF c, of items "concat (map snd gs)" bs] sel by simp
    finally show ?thesis using False g by simp
  qed
qed

lemma selected_boundaries_flat:
  "selected_boundaries ws n =
     (if n \<le> 1 then [0] else fst (inner_loop n (sort_key fst ws) ([0], 0)))"
  using outer_loop_flat [of "[0]" 0 n "sorted_groups ws"]
  by (simp add: selected_boundaries_def concat_sorted_groups)

lemma inner_loop_greedy:
  "\<exists>sel pre post. xs = pre @ post \<and> subseq sel pre \<and>
     inner_loop n xs (bs, c) = (bs @ map entry_end sel, c + int (length sel)) \<and>
     (\<forall>u \<in> set pre. u \<in> set sel \<or> entry_start u \<in> set (bs @ map entry_end sel)) \<and>
     (post = [] \<or> c + int (length sel) \<ge> n - 1)"
proof (induction xs arbitrary: bs c)
  case Nil
  show ?case by (rule exI [of _ "[]"], rule exI [of _ "[]"], rule exI [of _ "[]"]) simp
next
  case (Cons x rest)
  obtain d s e where x: "x = (d, s, e)" by (cases x) auto
  show ?case
  proof (cases "s \<in> set bs")
    case True
    from Cons.IH [of bs c] obtain sel pre post where ih:
      "rest = pre @ post" "subseq sel pre"
      "inner_loop n rest (bs, c) = (bs @ map entry_end sel, c + int (length sel))"
      "\<forall>u \<in> set pre. u \<in> set sel \<or> entry_start u \<in> set (bs @ map entry_end sel)"
      "post = [] \<or> c + int (length sel) \<ge> n - 1" by blast
    have "x # rest = (x # pre) @ post" using ih(1) by simp
    moreover have "subseq sel (x # pre)" using ih(2) by (simp add: list_emb_Cons)
    moreover have "inner_loop n (x # rest) (bs, c) = (bs @ map entry_end sel, c + int (length sel))"
      using True x ih(3) by simp
    moreover have "\<forall>u \<in> set (x # pre). u \<in> set sel \<or> entry_start u \<in> set (bs @ map entry_end sel)"
      using True x ih(4) by simp
    ultimately show ?thesis using ih(5) by blast
  next
    case False
    show ?thesis
    proof (cases "c + 1 \<ge> n - 1")
      case True
      have "x # rest = [x] @ rest" by simp
      moreover have "subseq [x] [x]" by simp
      moreover have "inner_loop n (x # rest) (bs, c) = (bs @ map entry_end [x], c + int (length [x]))"
        using True False x by simp
      moreover have "\<forall>u \<in> set [x]. u \<in> set [x] \<or> entry_start u \<in> set (bs @ map entry_end [x])"
        by simp
      moreover have "rest = [] \<or> c + int (length [x]) \<ge> n - 1" using True by simp
      ultimately show ?thesis by blast
    next
      case stop: False
      from Cons.IH [of "bs @ [e]" "c + 1"] obtain sel pre post where ih:
        "rest = pre @ post" "subseq sel pre"
        "inner_loop n rest (bs @ [e], c + 1) =
           ((bs @ [e]) @ map entry_end sel, c + 1 + int (length sel))"
        "\<forall>u \<in> set pre. u \<in> set sel \<or> entry_start u \<in> set ((bs @ [e]) @ map entry_end sel)"
        "post = [] \<or> c + 1 + int (length sel) \<ge> n - 1" by blast
      have "x # rest = (x # pre) @ post" using ih(1) by simp
      moreover have "subseq (x # sel) (x # pre)" using ih(2) by simp
      moreover have "inner_loop n (x # rest) (bs, c) =
          (bs @ map entry_end (x # sel), c + int (length (x # sel)))"
        using stop False x ih(3) by simp
      moreover have "\<forall>u \<in> set (x # pre). u \<in> set (x # sel) \<or>
          entry_start u \<in> set (bs @ map entry_end (x # sel))"
        using x ih(4) by auto
      moreover have "post = [] \<or> c + int (length (x # sel)) \<ge> n - 1" using ih(5) by auto
      ultimately show ?thesis by blast
    qed
  qed
qed

lemma selected_boundaries_greedy:
  "\<exists>sel. subseq sel (sort_key fst ws) \<and>
     selected_boundaries ws n = 0 # map entry_end sel \<and>
     (\<forall>c \<in> set sel. \<forall>u \<in> set ws.
        u \<notin> set sel \<and> entry_start u \<notin> set (selected_boundaries ws n) \<longrightarrow> fst c \<le> fst u) \<and>
     (int (length sel) < n - 1 \<longrightarrow>
        (\<forall>u \<in> set ws. u \<in> set sel \<or> entry_start u \<in> set (selected_boundaries ws n)))"
proof (cases "n \<le> 1")
  case True
  then have "selected_boundaries ws n = [0]" by (simp add: selected_boundaries_flat)
  with True show ?thesis by (intro exI [of _ "[]"]) simp
next
  case False
  let ?xs = "sort_key fst ws"
  from inner_loop_greedy [of ?xs n "[0]" 0] obtain sel pre post where g:
    "?xs = pre @ post" "subseq sel pre"
    "inner_loop n ?xs ([0], 0) = ([0] @ map entry_end sel, 0 + int (length sel))"
    "\<forall>u \<in> set pre. u \<in> set sel \<or> entry_start u \<in> set ([0] @ map entry_end sel)"
    "post = [] \<or> 0 + int (length sel) \<ge> n - 1" by blast
  from False g(3) have bs: "selected_boundaries ws n = 0 # map entry_end sel"
    by (simp add: selected_boundaries_flat)
  have srt: "sorted (map fst (pre @ post))" using g(1) sorted_sort_key [of fst ws] by simp
  have sub: "subseq sel ?xs" using g(1) g(2) by (simp add: subseq_rev_drop_many)
  have sel_pre: "set sel \<subseteq> set pre"
  proof
    fix e assume "e \<in> set sel"
    from list_emb_set [OF g(2) this] obtain y where "y \<in> set pre" "e = y" by blast
    then show "e \<in> set pre" by simp
  qed
  have first: "\<forall>c \<in> set sel. \<forall>u \<in> set ws.
        u \<notin> set sel \<and> entry_start u \<notin> set (selected_boundaries ws n) \<longrightarrow> fst c \<le> fst u"
  proof (intro ballI impI)
    fix c u assume c: "c \<in> set sel" and u: "u \<in> set ws"
      and nu: "u \<notin> set sel \<and> entry_start u \<notin> set (selected_boundaries ws n)"
    from u have "u \<in> set (pre @ post)" using g(1) by (metis set_sort)
    moreover from nu g(4) bs have "u \<notin> set pre" by auto
    ultimately have "u \<in> set post" by simp
    moreover from c sel_pre have "c \<in> set pre" by blast
    ultimately show "fst c \<le> fst u" using srt by (auto simp: sorted_append)
  qed
  have full: "int (length sel) < n - 1 \<longrightarrow>
        (\<forall>u \<in> set ws. u \<in> set sel \<or> entry_start u \<in> set (selected_boundaries ws n))"
  proof (intro impI ballI)
    fix u assume "int (length sel) < n - 1" and u: "u \<in> set ws"
    with g(5) have "post = []" by simp
    with g(1) u have "u \<in> set pre" by (metis append_Nil2 set_sort)
    with g(4) bs show "u \<in> set sel \<or> entry_start u \<in> set (selected_boundaries ws n)" by auto
  qed
  from sub bs first full show ?thesis by blast
qed

section \<open>Claims\<close>

text \<open>
  Claim C8. Rounding a gap to the nearest 0.5, \<^verbatim>\<open>round(x * 2) / 2\<close>, is idempotent: rounding
  an already rounded value gives the same value back.
\<close>

theorem rounding_idempotent: "rounded_diff (rounded_diff d) = rounded_diff d"
  by (simp add: rounded_diff_def py_round_of_int)

text \<open>
  Claim C5. The extractor returns \<^verbatim>\<open>len(line_records) - 1\<close> whitespace entries when there
  are at least two line records and none otherwise, and entry \<open>k\<close> is the absolute distance
  between the top of record \<open>k + 1\<close> and the bottom of record \<open>k\<close>, with the two indices.
\<close>

theorem whitespace_entries_count:
  "case analyze_whitespace doc of (ls, ws) \<Rightarrow>
     length ws = (if 2 \<le> length ls then length ls - 1 else 0) \<and>
     (\<forall>k < length ws.
        ws ! k = (\<bar>line_top (ls ! (k + 1)) - line_bottom (ls ! k)\<bar>, k, k + 1))"
  by (auto simp: analyze_whitespace_def Let_def length_whitespace_diff nth_whitespace_diff)

text \<open>Claim C5 at a document of four lines: three entries, the last one \<open>(1, 2, 3)\<close>.\<close>

theorem whitespace_entries_count_witness:
  "length (snd (analyze_whitespace doc_shrinking_gaps)) = 3 \<and>
   (2::nat) < 3 \<and> snd (analyze_whitespace doc_shrinking_gaps) ! 2 = (\<bar>31 - 30\<bar>, 2, 3)"
proof -
  have e: "analyze_whitespace doc_shrinking_gaps =
   ([\<lparr>line_top = 0, line_bottom = 10, line_text = ''a'', page_num = 0\<rparr>,
     \<lparr>line_top = 13, line_bottom = 20, line_text = ''b'', page_num = 0\<rparr>,
     \<lparr>line_top = 22, line_bottom = 30, line_text = ''c'', page_num = 0\<rparr>,
     \<lparr>line_top = 31, line_bottom = 40, line_text = ''d'', page_num = 0\<rparr>],
    [(3, 0, 1), (2, 1, 2), (1, 2, 3)])"
    by code_simp
  from whitespace_entries_count [of doc_shrinking_gaps] show ?thesis
    unfolding e by simp
qed

text \<open>
  Claim C4. The list of groups that the selection loop walks is in strictly ascending order
  of rounded gap, every entry sits in the group of its rounded gap, and the entries met in
  that walk are the whitespace entries in ascending (stable) order of gap. The boundaries
  chosen are those of one pass over that walk from the smallest gap on: they are \<open>0\<close>
  followed by the end indices of the entries taken, every entry taken has a gap (and a
  rounded gap) no larger than that of any entry left behind whose start is not a
  boundary, and when fewer than \<^verbatim>\<open>num_segments - 1\<close> entries are taken no such entry is left
  behind.
\<close>

theorem groups_visited_ascending:
  "sorted_wrt (<) (map fst (sorted_groups ws)) \<and>
   (\<forall>g \<in> set (sorted_groups ws). \<forall>e \<in> set (snd g). rounded_diff (fst e) = fst g) \<and>
   concat (map snd (sorted_groups ws)) = sort_key fst ws \<and>
   selected_boundaries ws n =
     (if n \<le> 1 then [0]
      else fst (inner_loop n (concat (map snd (sorted_groups ws))) ([0], 0))) \<and>
   (\<exists>sel. subseq sel (concat (map snd (sorted_groups ws))) \<and>
      selected_boundaries ws n = 0 # map (\<lambda>e. snd (snd e)) sel \<and>
      (\<forall>c \<in> set sel. \<forall>u \<in> set ws.
         u \<notin> set sel \<and> fst (snd u) \<notin> set (selected_boundaries ws n) \<longrightarrow>
           fst c \<le> fst u \<and> rounded_diff (fst c) \<le> rounded_diff (fst u)) \<and>
      (int (length sel) < n - 1 \<longrightarrow>
         (\<forall>u \<in> set ws. u \<in> set sel \<or> fst (snd u) \<in> set (selected_boundaries ws n))))"
proof -
  from selected_boundaries_greedy [of ws n] obtain sel where sel:
    "subseq sel (sort_key fst ws)" "selected_boundaries ws n = 0 # map entry_end sel"
    "\<forall>c \<in> set sel. \<forall>u \<in> set ws.
        u \<notin> set sel \<and> entry_start u \<notin> set (selected_boundaries ws n) \<longrightarrow> fst c \<le> fst u"
    "int (length sel) < n - 1 \<longrightarrow>
        (\<forall>u \<in> set ws. u \<in> set sel \<or> entry_start u \<in> set (selected_boundaries ws n))"
    by blast
  from sel(3) have "\<forall>c \<in> set sel. \<forall>u \<in> set ws.
         u \<notin> set sel \<and> fst (snd u) \<notin> set (selected_boundaries ws n) \<longrightarrow>
           fst c \<le> fst u \<and> rounded_diff (fst c) \<le> rounded_diff (fst u)"
    by (blast intro: rounded_diff_mono)
  with sel(1,2,4) have "\<exists>sel. subseq sel (concat (map snd (sorted_groups ws))) \<and>
      selected_boundaries ws n = 0 # map (\<lambda>e. snd (snd e)) sel \<and>
      (\<forall>c \<in> set sel. \<forall>u \<in> set ws.
         u \<notin> set sel \<and> fst (snd u) \<notin> set (selected_boundaries ws n) \<longrightarrow>
           fst c \<le> fst u \<and> rounded_diff (fst c) \<le> rounded_diff (fst u)) \<and>
      (int (length sel) < n - 1 \<longrightarrow>
         (\<forall>u \<in> set ws. u \<in> set sel \<or> fst (snd u) \<in> set (selected_boundaries ws n)))"
    unfolding concat_sorted_groups by blast
  moreover have "selected_boundaries ws n =
     (if n \<le> 1 then [0]
      else fst (inner_loop n (concat (map snd (sorted_groups ws))) ([0], 0)))"
    unfolding concat_sorted_groups by (rule selected_boundaries_flat)
  ultimately show ?thesis
    using keys_sorted_groups [of ws] sorted_groups_keys [of ws] concat_sorted_groups [of ws]
    by blast
qed

text \<open>
  Claim C4 at five lines with the gaps 5, 1, 9, 4 and two segments: the groups come out as
  1, 4, 5, 9, the one boundary chosen is 2, after the smallest gap, and the entry with
  gap 4, which could have been taken, is left behind.
\<close>

theorem groups_visited_ascending_witness:
  "snd (analyze_whitespace doc_mixed_gaps) = [(5, 0, 1), (1, 1, 2), (9, 2, 3), (4, 3, 4)] \<and>
   sorted_groups [(5, 0, 1), (1, 1, 2), (9, 2, 3), (4, 3, 4)] =
     [(1, [(1, 1, 2)]), (4, [(4, 3, 4)]), (5, [(5, 0, 1)]), (9, [(9, 2, 3)])] \<and>
   rounded_diff (fst ((4, 3, 4) :: entry)) = 4 \<and>
   selected_boundaries [(5, 0, 1), (1, 1, 2), (9, 2, 3), (4, 3, 4)] 2 = [0, 2] \<and>
   ((4, 3, 4) :: entry) \<in> set [(5, 0, 1), (1, 1, 2), (9, 2, 3), (4, 3, 4)] \<and>
   fst (snd ((4, 3, 4) :: entry)) \<notin> set (selected_boundaries [(5, 0, 1), (1, 1, 2), (9, 2, 3), (4, 3, 4)] 2) \<and>
   rounded_diff (fst ((1, 1, 2) :: entry)) \<le> rounded_diff (fst ((4, 3, 4) :: entry))"
proof -
  let ?ws = "[(5, 0, 1), (1, 1, 2), (9, 2, 3), (4, 3, 4)] :: entry list"
  have a: "snd (analyze_whitespace doc_mixed_gaps) = ?ws" by code_simp
  have e: "sorted_groups ?ws = [(1, [(1, 1, 2)]), (4, [(4, 3, 4)]), (5, [(5, 0, 1)]), (9, [(9, 2, 3)])]"
    by code_simp
  have s: "selected_boundaries ?ws 2 = [0, 2]" by code_simp
  note t = groups_visited_ascending [of ?ws 2]
  from t have "\<forall>g \<in> set (sorted_groups ?ws). \<forall>e \<in> set (snd g). rounded_diff (fst e) = fst g"
    by blast
  then have k: "rounded_diff (fst ((4, 3, 4) :: entry)) = 4" unfolding e by simp
  from t obtain sel where sel:
    "subseq sel (concat (map snd (sorted_groups ?ws)))"
    "selected_boundaries ?ws 2 = 0 # map (\<lambda>e. snd (snd e)) sel"
    "\<forall>c \<in> set sel. \<forall>u \<in> set ?ws.
         u \<notin> set sel \<and> fst (snd u) \<notin> set (selected_boundaries ?ws 2) \<longrightarrow>
           fst c \<le> fst u \<and> rounded_diff (fst c) \<le> rounded_diff (fst u)"
    by blast
  from sel(2) s have m: "map (\<lambda>e. snd (snd e)) sel = [2]" by simp
  then obtain x where x: "sel = [x]" "snd (snd x) = 2" by auto
  from x(1) have "x \<in> set sel" by simp
  from list_emb_set [OF sel(1) this] obtain y where
    "y \<in> set (concat (map snd (sorted_groups ?ws)))" "x = y" by blast
  then have "x \<in> set ?ws" unfolding e by auto
  with x(2) have xe: "x = (1, 1, 2)" by auto
  have u: "((4, 3, 4) :: entry) \<in> set ?ws" by simp
  have "((4, 3, 4) :: entry) \<notin> set sel \<and>
        fst (snd ((4, 3, 4) :: entry)) \<notin> set (selected_boundaries ?ws 2)"
    unfolding s x(1) xe by simp
  with sel(3) u have "rounded_diff (fst x) \<le> rounded_diff (fst ((4, 3, 4) :: entry))"
    unfolding x(1) by (metis list.set_intros(1))
  with a e k s xe show ?thesis by simp
qed

text \<open>
  Claim C1. When the count check passes, the boundary list should have
  \<open>num_segments + 1\<close> elements, start with 0, end with the number of line records and be
  strictly increasing. The code does not meet the last part: it appends the boundaries in
  ascending order of gap and never sorts them. For four lines whose gaps shrink (3, 2, 1)
  and three segments the list is \<open>[0, 3, 2, 4]\<close>; the count check passes, the second
  segment is the empty slice from 3 to 2 and is not written, the record at index 2 is
  placed in both files that are written, and the run reports three segments.
\<close>

theorem boundaries_unsorted_at_shrinking_gaps:
  "boundaries_of doc_shrinking_gaps 3 = [0, 3, 2, 4] \<and>
   int (length (boundaries_of doc_shrinking_gaps 3)) = 3 + 1 \<and>
   \<not> sorted_wrt (<) (boundaries_of doc_shrinking_gaps 3) \<and>
   files (segment_pdf ''/in'' doc_shrinking_gaps 3 ''segment_'' (Some ''out'') empty_world)
     ''out/segment_1.pdf'' =
     Some [\<lparr>out_width = 612, out_height = 792,
             inserted = [((10, 0), ''a''), ((10, 13), ''b''), ((10, 22), ''c'')]\<rparr>] \<and>
   files (segment_pdf ''/in'' doc_shrinking_gaps 3 ''segment_'' (Some ''out'') empty_world)
     ''out/segment_2.pdf'' = None \<and>
   files (segment_pdf ''/in'' doc_shrinking_gaps 3 ''segment_'' (Some ''out'') empty_world)
     ''out/segment_3.pdf'' =
     Some [\<lparr>out_width = 612, out_height = 792,
             inserted = [((10, 22), ''c''), ((10, 31), ''d'')]\<rparr>] \<and>
   stdout (segment_pdf ''/in'' doc_shrinking_gaps 3 ''segment_'' (Some ''out'') empty_world) =
     [''Saved segment 1 to: out/segment_1.pdf'', ''Saved segment 3 to: out/segment_3.pdf'',
      ''PDF segmentation completed with 3 segments.'']"
proof -
  have b: "boundaries_of doc_shrinking_gaps 3 = [0, 3, 2, 4]" by code_simp
  have f1: "files (segment_pdf ''/in'' doc_shrinking_gaps 3 ''segment_'' (Some ''out'') empty_world)
     ''out/segment_1.pdf'' =
     Some [\<lparr>out_width = 612, out_height = 792,
             inserted = [((10, 0), ''a''), ((10, 13), ''b''), ((10, 22), ''c'')]\<rparr>]"
    by code_simp
  have f2: "files (segment_pdf ''/in'' doc_shrinking_gaps 3 ''segment_'' (Some ''out'') empty_world)
     ''out/segment_2.pdf'' = None"
    by code_simp
  have f3: "files (segment_pdf ''/in'' doc_shrinking_gaps 3 ''segment_'' (Some ''out'') empty_world)
     ''out/segment_3.pdf'' =
     Some [\<lparr>out_width = 612, out_height = 792,
             inserted = [((10, 22), ''c''), ((10, 31), ''d'')]\<rparr>]"
    by code_simp
  have o: "stdout (segment_pdf ''/in'' doc_shrinking_gaps 3 ''segment_'' (Some ''out'') empty_world) =
     [''Saved segment 1 to: out/segment_1.pdf'', ''Saved segment 3 to: out/segment_3.pdf'',
      ''PDF segmentation completed with 3 segments.'']"
    by code_simp
  from b f1 f2 f3 o show ?thesis by simp
qed

text \<open>
  What the boundary list does satisfy whenever the count check passes: the length, the
  first and the last element, and that no index repeats or exceeds the number of line
  records.
\<close>

lemma boundaries_on_success:
  assumes "int (length (boundaries_of doc n)) = n + 1"
  shows "length (boundaries_of doc n) = nat n + 1 \<and>
         hd (boundaries_of doc n) = 0 \<and>
         last (boundaries_of doc n) = length (fst (analyze_whitespace doc)) \<and>
         distinct (boundaries_of doc n) \<and>
         (\<forall>b \<in> set (boundaries_of doc n). b \<le> length (fst (analyze_whitespace doc)))"
proof -
  let ?ls = "all_line_positions doc"
  from segment_boundaries_shape [of ?ls n] obtain bsel where b:
    "boundaries_of doc n = (if ?ls = [] then [0] else 0 # bsel @ [length ?ls])"
    "distinct bsel" "\<forall>b \<in> set bsel. 2 \<le> b \<and> b < length ?ls"
    by (auto simp: boundaries_of_eq)
  have ls: "fst (analyze_whitespace doc) = ?ls" by (simp add: analyze_whitespace_def Let_def)
  have "0 < length (boundaries_of doc n)" using b(1) by simp
  with assms have "length (boundaries_of doc n) = nat n + 1" by linarith
  moreover have "hd (boundaries_of doc n) = 0" using b(1) by simp
  moreover have "last (boundaries_of doc n) = length ?ls" using b(1) by simp
  moreover have "distinct (boundaries_of doc n)" using b by fastforce
  moreover have "\<forall>x \<in> set (boundaries_of doc n). x \<le> length ?ls"
  proof (cases "?ls = []")
    case True
    with b(1) show ?thesis by simp
  next
    case False
    with b(1) have "set (boundaries_of doc n) = insert 0 (insert (length ?ls) (set bsel))"
      by auto
    with b(3) show ?thesis by (auto intro: less_imp_le)
  qed
  ultimately show ?thesis unfolding ls by blast
qed

subsection \<open>The mismatch path\<close>

lemma fst_analyze: "fst (analyze_whitespace doc) = all_line_positions doc"
  by (simp add: analyze_whitespace_def Let_def)


lemma segment_pdf_mismatch:
  assumes "int (length (boundaries_of doc n)) \<noteq> n + 1"
  shows "segment_pdf pdf_dir doc n output_prefix output_dir w =
         print (mismatch_message (int (length (boundaries_of doc n)) - 1) n)
           (makedirs (case output_dir of None \<Rightarrow> pdf_dir | Some d \<Rightarrow> d) w)"
  using assms by (simp add: segment_pdf_def Let_def)

text \<open>
  Claim C9. When the count check passes with at least two segments requested, the index 1
  is not in the boundary list (the entry between records 0 and 1 starts at the boundary
  0, which is always present, so it is skipped), and the first segment, the slice from
  the first boundary to the second, holds at least two line records.
\<close>

theorem first_segment_two_lines:
  assumes "int (length (boundaries_of doc n)) = n + 1" and "2 \<le> n"
  shows "1 \<notin> set (boundaries_of doc n) \<and>
         2 \<le> length (slice (boundaries_of doc n ! 0) (boundaries_of doc n ! 1)
                  (fst (analyze_whitespace doc)))"
proof -
  let ?ls = "all_line_positions doc"
  from segment_boundaries_shape [of ?ls n] obtain bsel where b:
    "boundaries_of doc n = (if ?ls = [] then [0] else 0 # bsel @ [length ?ls])"
    "\<forall>b \<in> set bsel. 2 \<le> b \<and> b < length ?ls" "length bsel \<le> length ?ls - 2"
    by (auto simp: boundaries_of_eq)
  from assms b(1) have ne: "?ls \<noteq> []" by (auto split: if_splits)
  with b(1) have bs: "boundaries_of doc n = 0 # bsel @ [length ?ls]" by simp
  with assms have len: "1 \<le> length bsel" by simp
  with b(3) have n3: "3 \<le> length ?ls" by linarith
  from len obtain b1 rest where bsel: "bsel = b1 # rest" by (cases bsel) auto
  with b(2) have b1: "2 \<le> b1" "b1 < length ?ls" by auto
  have "1 \<notin> set (boundaries_of doc n)"
  proof
    assume "1 \<in> set (boundaries_of doc n)"
    with bs have "1 \<in> set bsel \<or> 1 = length ?ls" by auto
    with b(2) n3 show False by auto
  qed
  moreover have "boundaries_of doc n ! 0 = 0" "boundaries_of doc n ! 1 = b1"
    using bs bsel by simp_all
  ultimately show ?thesis using b1 by (simp add: slice_def fst_analyze)
qed

text \<open>Claim C9 at four lines and three segments: the first segment runs from 0 to 3.\<close>

theorem first_segment_two_lines_witness:
  "int (length (boundaries_of doc_shrinking_gaps 3)) = 3 + 1 \<and> (2::int) \<le> 3 \<and>
   1 \<notin> set (boundaries_of doc_shrinking_gaps 3) \<and>
   boundaries_of doc_shrinking_gaps 3 ! 1 = 3 \<and>
   2 \<le> length (slice (boundaries_of doc_shrinking_gaps 3 ! 0) (boundaries_of doc_shrinking_gaps 3 ! 1)
                  (fst (analyze_whitespace doc_shrinking_gaps)))"
proof -
  have e: "boundaries_of doc_shrinking_gaps 3 = [0, 3, 2, 4]" by code_simp
  then have h: "int (length (boundaries_of doc_shrinking_gaps 3)) = 3 + 1" by simp
  from first_segment_two_lines [OF h] e h show ?thesis by simp
qed

text \<open>
  Claim C10. When no line record is extracted and at least one segment is requested, the
  boundary list stays \<open>[0]\<close>, the count check fails, the mismatch message (0 segments
  achieved) is printed and no file is written.
\<close>

theorem no_lines_mismatch:
  assumes "fst (analyze_whitespace doc) = []" and "1 \<le> n"
  shows "boundaries_of doc n = [0] \<and>
         int (length (boundaries_of doc n)) \<noteq> n + 1 \<and>
         files (segment_pdf pdf_dir doc n output_prefix output_dir w) = files w \<and>
         stdout (segment_pdf pdf_dir doc n output_prefix output_dir w) =
           stdout w @ [mismatch_message 0 n]"
proof -
  from assms(1) have ls: "all_line_positions doc = []" by (simp add: fst_analyze)
  from segment_boundaries_shape [of "all_line_positions doc" n] ls
  have bs: "boundaries_of doc n = [0]" by (auto simp: boundaries_of_eq)
  with assms(2) have mm: "int (length (boundaries_of doc n)) \<noteq> n + 1" by simp
  from segment_pdf_mismatch [OF mm] bs mm show ?thesis
    by (simp add: print_def makedirs_def)
qed

text \<open>Claim C10 at a document whose only block is blank, two segments requested.\<close>

theorem no_lines_mismatch_witness:
  "fst (analyze_whitespace [example_page [example_block 30 40 ''   '']]) = [] \<and> (1::int) \<le> 2 \<and>
   boundaries_of [example_page [example_block 30 40 ''   '']] 2 = [0] \<and>
   files (segment_pdf ''/in'' [example_page [example_block 30 40 ''   '']] 2 ''segment_''
            (Some ''out'') empty_world) = Map.empty \<and>
   stdout (segment_pdf ''/in'' [example_page [example_block 30 40 ''   '']] 2 ''segment_''
            (Some ''out'') empty_world) =
     [''Unable to segment PDF into the desired number of segments. we have 0 segments and need 2'']"
proof -
  have h: "fst (analyze_whitespace [example_page [example_block 30 40 ''   '']]) = []"
    by code_simp
  have m: "mismatch_message 0 2 =
    ''Unable to segment PDF into the desired number of segments. we have 0 segments and need 2''"
    by code_simp
  have h2: "(1::int) \<le> 2" by simp
  from no_lines_mismatch [OF h h2, of "''/in''" "''segment_''" "Some ''out''" empty_world] h m
  show ?thesis by (simp add: empty_world_def)
qed







subsection \<open>The records of one page\<close>

lemma page_num_page_lines: "l \<in> set (page_lines pn p) \<Longrightarrow> page_num l = pn"
  by (auto simp: page_lines_def mk_line_def)

lemma filter_concat_pages:
  assumes "\<And>i l. l \<in> set (f i) \<Longrightarrow> page_num l = i" and "distinct is"
  shows "filter (\<lambda>l. page_num l = pn) (concat (map f is)) = (if pn \<in> set is then f pn else [])"
  using assms(2)
proof (induction "is")
  case Nil
  show ?case by simp
next
  case (Cons i "is")
  have keep: "filter (\<lambda>l. page_num l = pn) (f pn) = f pn"
    using assms(1) by (simp add: filter_True)
  have drop: "i \<noteq> pn \<Longrightarrow> filter (\<lambda>l. page_num l = pn) (f i) = []"
    using assms(1) by (auto simp: filter_empty_conv)
  from Cons show ?case
    by (cases "i = pn") (auto simp: keep drop)
qed

lemma lines_of_page:
  "filter (\<lambda>l. page_num l = pn) (all_line_positions doc) =
     (if pn < length doc then sort_key line_top (page_lines pn (doc ! pn)) else [])"
proof -
  have "filter (\<lambda>l. page_num l = pn)
          (concat (map (\<lambda>pn. sort_key line_top (page_lines pn (doc ! pn))) [0..<length doc])) =
        (if pn \<in> set [0..<length doc] then sort_key line_top (page_lines pn (doc ! pn)) else [])"
    by (rule filter_concat_pages) (auto dest: page_num_page_lines)
  then show ?thesis by (simp add: all_line_positions_def)
qed

text \<open>
  Claim C6. Within every page the extracted line records are sorted by \<^verbatim>\<open>top\<close>, ascending:
  the records of page \<open>pn\<close> in the result are the stable sort of that page's records, so
  records with the same \<^verbatim>\<open>top\<close> keep their block order.
\<close>

theorem lines_sorted_within_page:
  "sorted (map line_top (filter (\<lambda>l. page_num l = pn) (all_line_positions doc))) \<and>
   (pn < length doc \<longrightarrow>
      filter (\<lambda>l. page_num l = pn) (all_line_positions doc) =
        sort_key line_top (page_lines pn (doc ! pn)) \<and>
      filter (\<lambda>l. page_num l = pn \<and> line_top l = t) (all_line_positions doc) =
        filter (\<lambda>l. line_top l = t) (page_lines pn (doc ! pn)))"
proof -
  have "filter (\<lambda>l. page_num l = pn \<and> line_top l = t) (all_line_positions doc) =
        filter (\<lambda>l. line_top l = t) (filter (\<lambda>l. page_num l = pn) (all_line_positions doc))"
    by (simp add: conj_commute)
  then show ?thesis
    by (simp add: lines_of_page sort_key_stable)
qed

text \<open>
  Claim C6 at a document of two pages whose first page lists the line at 50 before the
  line at 10: the page comes out as 10, 50, and the second page's line at 5 follows.
\<close>

theorem lines_sorted_within_page_witness:
  "(0::nat) < length doc_two_pages \<and>
   map line_top (filter (\<lambda>l. page_num l = 0) (all_line_positions doc_two_pages)) = [10, 50] \<and>
   map line_top (page_lines 0 (doc_two_pages ! 0)) = [50, 10] \<and>
   sorted (map line_top (filter (\<lambda>l. page_num l = 0) (all_line_positions doc_two_pages))) \<and>
   map line_top (all_line_positions doc_two_pages) = [10, 50, 5]"
proof -
  have a: "all_line_positions doc_two_pages = 
  [\<lparr>line_top = 10, line_bottom = 20, line_text = ''a'', page_num = 0\<rparr>,
     \<lparr>line_top = 50, line_bottom = 60, line_text = ''b'', page_num = 0\<rparr>,
     \<lparr>line_top = 5, line_bottom = 15, line_text = ''c'', page_num = 1\<rparr>]"
    by code_simp
  have p: "page_lines 0 (doc_two_pages ! 0) = 
  [\<lparr>line_top = 50, line_bottom = 60, line_text = ''b'', page_num = 0\<rparr>,
   \<lparr>line_top = 10, line_bottom = 20, line_text = ''a'', page_num = 0\<rparr>]"
    by code_simp
  have h: "(0::nat) < length doc_two_pages" by (simp add: doc_two_pages_def)
  from lines_sorted_within_page [of 0 doc_two_pages] h
  have "sorted (map line_top (filter (\<lambda>l. page_num l = 0) (all_line_positions doc_two_pages)))"
    by blast
  with h show ?thesis unfolding a p by simp
qed

subsection \<open>The files a run writes\<close>

lemma files_print: "files (print s w) = files w"
  by (simp add: print_def)

lemma files_makedirs: "files (makedirs d w) = files w"
  by (simp add: makedirs_def)

lemma files_write_segment:
  assumes "files (write_segment doc lp bs output_prefix output_dir i w) path = Some pdf"
  shows "files w path = Some pdf \<or> pdf = segment_pages doc lp (bs ! i) (bs ! (i + 1))"
  using assms by (auto simp: write_segment_def Let_def files_print split: if_splits)

lemma files_fold_write_segment:
  assumes "files (fold (write_segment doc lp bs output_prefix output_dir) is w) path = Some pdf"
  shows "files w path = Some pdf \<or>
         (\<exists>i \<in> set is. pdf = segment_pages doc lp (bs ! i) (bs ! (i + 1)))"
  using assms
proof (induction "is" arbitrary: w)
  case Nil
  then show ?case by simp
next
  case (Cons i "is")
  from Cons.prems have
    "files (fold (write_segment doc lp bs output_prefix output_dir) is
       (write_segment doc lp bs output_prefix output_dir i w)) path = Some pdf"
    by simp
  from Cons.IH [OF this] show ?case
  proof
    assume "files (write_segment doc lp bs output_prefix output_dir i w) path = Some pdf"
    from files_write_segment [OF this] show ?thesis by auto
  next
    assume "\<exists>i \<in> set is. pdf = segment_pages doc lp (bs ! i) (bs ! (i + 1))"
    then show ?thesis by auto
  qed
qed

lemma files_segment_pdf:
  assumes "files (segment_pdf pdf_dir doc n output_prefix output_dir w) path = Some pdf"
  shows "files w path = Some pdf \<or>
         (\<exists>i < nat n. pdf = segment_pages doc (all_line_positions doc)
                          (boundaries_of doc n ! i) (boundaries_of doc n ! (i + 1)))"
proof (cases "int (length (boundaries_of doc n)) \<noteq> n + 1")
  case True
  with assms show ?thesis
    by (simp add: segment_pdf_def Let_def files_print files_makedirs)
next
  case False
  with assms have
    "files (fold (write_segment doc (all_line_positions doc) (boundaries_of doc n) output_prefix
              (case output_dir of None \<Rightarrow> pdf_dir | Some d \<Rightarrow> d))
            [0..<nat n]
            (makedirs (case output_dir of None \<Rightarrow> pdf_dir | Some d \<Rightarrow> d) w)) path = Some pdf"
    by (simp add: segment_pdf_def Let_def files_print fst_analyze)
  from files_fold_write_segment [OF this] show ?thesis
    by (auto simp: files_makedirs)
qed

lemma in_segment_pages:
  assumes "pg \<in> set (segment_pages doc lp s e)"
  shows "\<exists>pn < length doc. inserted pg = map insert_text (page_segment_lines lp s e pn) \<and>
           out_width pg = width (doc ! pn) \<and> out_height pg = height (doc ! pn)"
  using assms by (auto simp: segment_pages_def Let_def split: if_splits)

lemma in_all_line_positions:
  assumes "l \<in> set (all_line_positions doc)"
  shows "page_num l < length doc \<and>
         (\<exists>b \<in> set (blocks (doc ! page_num l)). keep_block b \<and> l = mk_line (page_num l) b)"
proof -
  from assms obtain pn where pn: "pn < length doc" "l \<in> set (page_lines pn (doc ! pn))"
    by (auto simp: all_line_positions_def)
  then have "page_num l = pn" by (simp add: page_num_page_lines)
  with pn show ?thesis by (auto simp: page_lines_def)
qed

text \<open>
  Claim C7. Every page of a file written by the run carries one insertion per line record
  of the segment on that page, in order, and each insertion puts the record's text, which
  is the stripped text of its source block, at \<open>x = 10\<close> and at \<open>y\<close> equal to the
  record's \<^verbatim>\<open>top\<close>, the block's \<open>y0\<close>.
\<close>

theorem placed_text_is_stripped_text:
  assumes "files (segment_pdf pdf_dir doc n output_prefix output_dir w) path = Some pdf"
    and "files w path \<noteq> Some pdf"
    and "pg \<in> set pdf"
    and "((x, y), t) \<in> set (inserted pg)"
  shows "(\<exists>i < nat n. \<exists>pn < length doc.
            inserted pg = map (\<lambda>l. ((10, line_top l), line_text l))
              (page_segment_lines (fst (analyze_whitespace doc))
                 (boundaries_of doc n ! i) (boundaries_of doc n ! (i + 1)) pn)) \<and>
         (\<exists>l \<in> set (fst (analyze_whitespace doc)).
            x = 10 \<and> y = line_top l \<and> t = line_text l \<and>
            (\<exists>b \<in> set (blocks (doc ! page_num l)).
               t = strip (block_text b) \<and> y = y0 b))"
proof -
  let ?lp = "all_line_positions doc"
  let ?bs = "boundaries_of doc n"
  from files_segment_pdf [OF assms(1)] assms(2) obtain i where i:
    "i < nat n" "pdf = segment_pages doc ?lp (?bs ! i) (?bs ! (i + 1))" by blast
  from in_segment_pages [of pg doc ?lp "?bs ! i" "?bs ! (i + 1)"] assms(3) i(2)
  obtain pn where pn: "pn < length doc"
    "inserted pg = map insert_text (page_segment_lines ?lp (?bs ! i) (?bs ! (i + 1)) pn)"
    by blast
  from assms(4) pn(2) obtain l where l:
    "l \<in> set (page_segment_lines ?lp (?bs ! i) (?bs ! (i + 1)) pn)" "((x, y), t) = insert_text l"
    by auto
  from l(1) have "l \<in> set (slice (?bs ! i) (?bs ! (i + 1)) ?lp)"
    by (simp add: page_segment_lines_def)
  then have mem: "l \<in> set ?lp"
    by (auto simp: slice_def dest: in_set_dropD in_set_takeD)
  from in_all_line_positions [OF mem] obtain b where b:
    "b \<in> set (blocks (doc ! page_num l))" "l = mk_line (page_num l) b" by blast
  from b(2) have "line_text l = strip (block_text b)" "line_top l = y0 b"
    by (metis mk_line_def line.select_convs(3), metis mk_line_def line.select_convs(1))
  note lb = this
  from l(2) have xyt: "x = 10" "y = line_top l" "t = line_text l"
    by (simp_all add: insert_text_def)
  from b(1) lb xyt have
    "\<exists>b \<in> set (blocks (doc ! page_num l)). t = strip (block_text b) \<and> y = y0 b"
    by (intro bexI [of _ b]) simp_all
  with mem xyt have
    "\<exists>l \<in> set ?lp. x = 10 \<and> y = line_top l \<and> t = line_text l \<and>
       (\<exists>b \<in> set (blocks (doc ! page_num l)). t = strip (block_text b) \<and> y = y0 b)"
    by (intro bexI [of _ l]) simp_all
  moreover from i(1) pn have
    "\<exists>i < nat n. \<exists>pn < length doc.
       inserted pg = map (\<lambda>l. ((10, line_top l), line_text l))
         (page_segment_lines ?lp (?bs ! i) (?bs ! (i + 1)) pn)"
    unfolding insert_text_def by blast
  ultimately show ?thesis by (simp add: fst_analyze)
qed

text \<open>
  Claim C7 at the document of two pages written as one segment: the block text
  \<^verbatim>\<open>" b  "\<close> at 50 is placed as \<^verbatim>\<open>"b"\<close> at \<open>(10, 50)\<close>.
\<close>

theorem placed_text_is_stripped_text_witness:
  "files (segment_pdf ''/in'' doc_two_pages 1 ''segment_'' (Some ''out'') empty_world)
     ''out/segment_1.pdf'' =
     Some [\<lparr>out_width = 612, out_height = 792, inserted = [((10, 10), ''a''), ((10, 50), ''b'')]\<rparr>,
           \<lparr>out_width = 612, out_height = 792, inserted = [((10, 5), ''c'')]\<rparr>] \<and>
   files empty_world ''out/segment_1.pdf'' = None \<and>
   (\<exists>l \<in> set (fst (analyze_whitespace doc_two_pages)).
      (10::rat) = 10 \<and> 50 = line_top l \<and> ''b'' = line_text l \<and>
      (\<exists>b \<in> set (blocks (doc_two_pages ! page_num l)).
         ''b'' = strip (block_text b) \<and> 50 = y0 b))"
proof -
  let ?pg = "\<lparr>out_width = 612, out_height = 792, inserted = [((10, 10), ''a''), ((10, 50), ''b'')]\<rparr>"
  let ?pdf = "[?pg, \<lparr>out_width = 612, out_height = 792, inserted = [((10::rat, 5::rat), ''c'')]\<rparr>]"
  have f: "files (segment_pdf ''/in'' doc_two_pages 1 ''segment_'' (Some ''out'') empty_world)
     ''out/segment_1.pdf'' = Some ?pdf"
    by code_simp
  have e: "files empty_world ''out/segment_1.pdf'' = None" by (simp add: empty_world_def)
  then have h2: "files empty_world ''out/segment_1.pdf'' \<noteq> Some ?pdf" by simp
  have h3: "?pg \<in> set ?pdf" by simp
  have h4: "((10, 50), ''b'') \<in> set (inserted ?pg)" by simp
  from placed_text_is_stripped_text [OF f h2 h3 h4] f e show ?thesis by blast
qed

end
